theory Spec2Isabelle
  imports Main "HOL-Library.Log_Nat"
begin

section \<open>The KIC ledger of src/main.py\<close>

text \<open>
  The ledger lives in two SQLite tables, \<^verbatim>\<open>users\<close> (one row per account, column
  \<^verbatim>\<open>kic_balance\<close>) and \<^verbatim>\<open>kic_transactions\<close> (the log), and in the class
  \<^verbatim>\<open>KICManager\<close>. All statements run on the one connection \<^verbatim>\<open>db.conn\<close>, so the
  state a function sees is the state left by the statements executed before it, committed
  or not. A table is the list of its rows in insertion order. Columns that no ledger
  function reads or writes (names, password hashes, timestamps, ...) are left out of the
  rows. Python integers are unbounded and are modelled by \<open>int\<close>. SQLite stores an integer
  in 64 bits and the \<^verbatim>\<open>sqlite3\<close> module refuses to bind a Python integer outside of them;
  integer arithmetic that leaves the 64 bits is redone in double precision and the result
  is stored as a REAL. A \<^verbatim>\<open>description\<close> is the UTF-8 text that is bound.
\<close>

subsection \<open>64-bit integers and doubles\<close>

definition int64_min :: int where
  "int64_min = - (2 ^ 63)"

definition int64_max :: int where
  "int64_max = 2 ^ 63 - 1"

definition fits_int64 :: "int \<Rightarrow> bool" where
  "fits_int64 v \<longleftrightarrow> int64_min \<le> v \<and> v \<le> int64_max"

text \<open>
  The nearest multiple of \<open>u\<close> to \<open>m \<ge> 0\<close>, a tie going to the even multiple, and the
  nearest double of an integer: integers below \<open>2 ^ 53\<close> in magnitude are doubles; above,
  a double keeps the 53 leading bits. Every number in a balance is an integer, so a
  double is represented by its integer value.
\<close>

definition round_even :: "int \<Rightarrow> int \<Rightarrow> int" where
  "round_even u m =
     (let q = m div u; r = m mod u
      in if 2 * r < u \<or> (2 * r = u \<and> even q) then q * u else (q + 1) * u)"

definition to_double :: "int \<Rightarrow> int" where
  "to_double x =
     (if \<bar>x\<bar> < 2 ^ 53 then x
      else sgn x * round_even (2 ^ nat (bitlen \<bar>x\<bar> - 53)) \<bar>x\<bar>)"

subsection \<open>Tables\<close>

text \<open>
  A value of the column \<^verbatim>\<open>kic_balance\<close>: an INTEGER or, after an overflow, a REAL. An
  INTEGER is read as the 64-bit value it is and a REAL as the double it is; both readings
  are the identity on everything SQLite can store. Python receives an INTEGER as an
  \<^verbatim>\<open>int\<close> and a REAL as a \<^verbatim>\<open>float\<close>.
\<close>

datatype sql_num = INTEGER int | REAL int

datatype py_num = Py_int int | Py_float int

definition fetch :: "sql_num \<Rightarrow> py_num" where
  "fetch c = (case c of INTEGER a \<Rightarrow> Py_int (signed_take_bit 63 a) | REAL r \<Rightarrow> Py_float (to_double r))"

definition py_value :: "py_num \<Rightarrow> int" where
  "py_value p = (case p of Py_int a \<Rightarrow> a | Py_float r \<Rightarrow> r)"

text \<open>
  A REAL result written to a column of INTEGER affinity becomes an INTEGER when it lies
  strictly between the smallest and the largest 64-bit integer.
\<close>

definition integer_affinity :: "int \<Rightarrow> sql_num" where
  "integer_affinity d = (if int64_min < d \<and> d < int64_max then INTEGER d else REAL d)"

text \<open>
  \<^verbatim>\<open>kic_balance - ?\<close> and \<^verbatim>\<open>kic_balance + ?\<close> with a bound 64-bit integer: integer
  arithmetic when the column holds an INTEGER and the result fits; otherwise both operands
  are taken as doubles and the result is the nearest double, written through the INTEGER
  affinity of the column.
\<close>

definition sql_sub :: "sql_num \<Rightarrow> int \<Rightarrow> sql_num" where
  "sql_sub c b =
     (case fetch c of
        Py_int a \<Rightarrow>
          if fits_int64 (a - b) then INTEGER (a - b)
          else integer_affinity (to_double (to_double a - to_double b))
      | Py_float r \<Rightarrow> integer_affinity (to_double (r - to_double b)))"

definition sql_add :: "sql_num \<Rightarrow> int \<Rightarrow> sql_num" where
  "sql_add c b =
     (case fetch c of
        Py_int a \<Rightarrow>
          if fits_int64 (a + b) then INTEGER (a + b)
          else integer_affinity (to_double (to_double a + to_double b))
      | Py_float r \<Rightarrow> integer_affinity (to_double (r + to_double b)))"

text \<open>\<^verbatim>\<open>users (id INTEGER PRIMARY KEY AUTOINCREMENT, email TEXT UNIQUE NOT NULL, ...,
  kic_balance INTEGER DEFAULT 1000, ...)\<close>\<close>

record user_row =
  u_id :: int
  u_email :: string
  u_kic_balance :: sql_num

text \<open>\<^verbatim>\<open>kic_transactions (id INTEGER PRIMARY KEY AUTOINCREMENT, user_id INTEGER NOT NULL,
  transaction_type TEXT NOT NULL, amount INTEGER NOT NULL, description TEXT,
  related_id INTEGER, created_at ...)\<close>; a NULL \<^verbatim>\<open>related_id\<close> is \<open>None\<close>.\<close>

record kic_txn =
  t_id :: int
  t_user_id :: int
  t_transaction_type :: string
  t_amount :: int
  t_description :: string
  t_related_id :: "int option"

text \<open>\<^verbatim>\<open>companies (id ..., name TEXT NOT NULL, ..., kic_balance INTEGER DEFAULT 5000, ...)\<close>\<close>

record company_row =
  c_name :: string
  c_kic_balance :: int

text \<open>
  The tables and, for the two AUTOINCREMENT keys that matter, the largest id handed out
  so far (SQLite's \<^verbatim>\<open>sqlite_sequence\<close>, which SQLite keeps at the largest id the table
  ever had).
\<close>

record tables =
  companies :: "company_row list"
  users :: "user_row list"
  users_seq :: int
  kic_transactions :: "kic_txn list"
  kic_transactions_seq :: int

text \<open>
  The database as the connection has it: the tables it sees, and the tables of the last
  commit, to which SQLite returns when it rolls the open transaction back.
\<close>

datatype snapshot = Snapshot (tables_of: tables)

record db = tables +
  committed :: snapshot

text \<open>The exceptions the modelled statements can raise.\<close>

datatype py_error =
  TypeError \<comment> \<open>\<^verbatim>\<open>cursor.fetchone()[0]\<close> when no row matched: \<^verbatim>\<open>None[0]\<close>\<close>
| IntegrityError \<comment> \<open>sqlite3, a second row with the same \<^verbatim>\<open>email\<close>\<close>
| OverflowError \<comment> \<open>sqlite3, binding a Python integer that does not fit 64 bits\<close>
| OperationalError \<comment> \<open>sqlite3, SQLITE_FULL: the AUTOINCREMENT key is used up\<close>

text \<open>\<^verbatim>\<open>db.conn.commit()\<close>, and the rollback SQLite does by itself on SQLITE_FULL.\<close>

definition commit :: "db \<Rightarrow> db" where
  "commit db =
     db\<lparr>committed :=
          Snapshot
            \<lparr>companies = companies db, users = users db, users_seq = users_seq db,
             kic_transactions = kic_transactions db,
             kic_transactions_seq = kic_transactions_seq db\<rparr>\<rparr>"

definition rollback :: "db \<Rightarrow> db" where
  "rollback db =
     \<lparr>companies = companies (tables_of (committed db)),
      users = users (tables_of (committed db)),
      users_seq = users_seq (tables_of (committed db)),
      kic_transactions = kic_transactions (tables_of (committed db)),
      kic_transactions_seq = kic_transactions_seq (tables_of (committed db)),
      committed = committed db\<rparr>"


subsection \<open>The SQL statements\<close>

text \<open>
  A statement that changes the database gives the new database, or the exception it
  raises together with the database it leaves behind.
\<close>

type_synonym stmt = "(py_error \<times> db) + db"

text \<open>\<^verbatim>\<open>SELECT kic_balance FROM users WHERE id = ?\<close> followed by \<^verbatim>\<open>fetchone()\<close>: the first
  matching row's column, or \<open>None\<close>; OverflowError when the id cannot be bound.\<close>

definition select_kic_balance :: "int \<Rightarrow> db \<Rightarrow> py_error + py_num option" where
  "select_kic_balance user_id db =
     (if \<not> fits_int64 user_id then Inl OverflowError
      else case find (\<lambda>r. u_id r = user_id) (users db) of
             None \<Rightarrow> Inr None
           | Some r \<Rightarrow> Inr (Some (fetch (u_kic_balance r))))"

text \<open>\<^verbatim>\<open>UPDATE users SET kic_balance = kic_balance <op> ? WHERE id = ?\<close> with the
  parameters \<^verbatim>\<open>(amount, user_id)\<close>: every matching row; nothing runs when a parameter
  cannot be bound.\<close>

definition update_row ::
  "(sql_num \<Rightarrow> int \<Rightarrow> sql_num) \<Rightarrow> int \<Rightarrow> int \<Rightarrow> user_row \<Rightarrow> user_row" where
  "update_row op amount user_id r =
     (if u_id r = user_id then r\<lparr>u_kic_balance := op (u_kic_balance r) amount\<rparr> else r)"

definition update_kic_balance ::
  "(sql_num \<Rightarrow> int \<Rightarrow> sql_num) \<Rightarrow> int \<Rightarrow> int \<Rightarrow> db \<Rightarrow> stmt" where
  "update_kic_balance op amount user_id db =
     (if \<not> (fits_int64 amount \<and> fits_int64 user_id) then Inl (OverflowError, db)
      else Inr (db\<lparr>users := map (update_row op amount user_id) (users db)\<rparr>))"

text \<open>\<^verbatim>\<open>INSERT INTO kic_transactions (user_id, transaction_type, amount, description
  [, related_id]) VALUES (...)\<close>: the row gets the next id; when the largest 64-bit id has
  been used SQLite fails with SQLITE_FULL and rolls the open transaction back. The
  connection never turns foreign-key enforcement on, so SQLite accepts a \<^verbatim>\<open>user_id\<close> that
  no row of \<^verbatim>\<open>users\<close> has.\<close>

definition insert_kic_transaction ::
  "int \<Rightarrow> string \<Rightarrow> int \<Rightarrow> string \<Rightarrow> int option \<Rightarrow> db \<Rightarrow> stmt" where
  "insert_kic_transaction user_id transaction_type amount description related_id db =
     (if \<not> (fits_int64 user_id \<and> fits_int64 amount
             \<and> (case related_id of None \<Rightarrow> True | Some i \<Rightarrow> fits_int64 i))
      then Inl (OverflowError, db)
      else if kic_transactions_seq db \<ge> int64_max then Inl (OperationalError, rollback db)
      else Inr (db\<lparr>kic_transactions := kic_transactions db @
                    [\<lparr>t_id = kic_transactions_seq db + 1, t_user_id = user_id,
                      t_transaction_type = transaction_type, t_amount = amount,
                      t_description = description, t_related_id = related_id\<rparr>],
                  kic_transactions_seq := kic_transactions_seq db + 1\<rparr>))"


subsection \<open>KICManager\<close>

text \<open>
  \<^verbatim>\<open>transfer_kic(from_user_id, to_user_id, amount, description, db) -> bool\<close>.
  The result is the value returned or the exception raised, together with the database
  the call leaves behind. The only test is \<^verbatim>\<open>balance >= amount\<close>, which Python decides
  exactly, also between a \<^verbatim>\<open>float\<close> and an \<^verbatim>\<open>int\<close>. An exception ends the call where it
  is raised: the statements before it have run and are not undone.
\<close>

definition transfer_kic ::
  "int \<Rightarrow> int \<Rightarrow> int \<Rightarrow> string \<Rightarrow> db \<Rightarrow> (py_error + bool) \<times> db" where
  "transfer_kic from_user_id to_user_id amount description db =
     (case select_kic_balance from_user_id db of
        Inl e \<Rightarrow> (Inl e, db)
      | Inr None \<Rightarrow> (Inl TypeError, db)
      | Inr (Some balance) \<Rightarrow>
          if py_value balance \<ge> amount then
            (case update_kic_balance sql_sub amount from_user_id db of
               Inl (e, db') \<Rightarrow> (Inl e, db')
             | Inr db1 \<Rightarrow>
            (case update_kic_balance sql_add amount to_user_id db1 of
               Inl (e, db') \<Rightarrow> (Inl e, db')
             | Inr db2 \<Rightarrow>
            (case insert_kic_transaction from_user_id ''sent'' (- amount) description None db2 of
               Inl (e, db') \<Rightarrow> (Inl e, db')
             | Inr db3 \<Rightarrow>
            (case insert_kic_transaction to_user_id ''received'' amount description None db3 of
               Inl (e, db') \<Rightarrow> (Inl e, db')
             | Inr db4 \<Rightarrow> (Inr True, commit db4)))))
          else (Inr False, db))"

text \<open>\<^verbatim>\<open>get_kic_balance(user_id, db) -> int\<close>: \<^verbatim>\<open>return cursor.fetchone()[0]\<close>.\<close>

definition get_kic_balance :: "int \<Rightarrow> db \<Rightarrow> py_error + py_num" where
  "get_kic_balance user_id db =
     (case select_kic_balance user_id db of
        Inl e \<Rightarrow> Inl e
      | Inr None \<Rightarrow> Inl TypeError
      | Inr (Some kic_balance) \<Rightarrow> Inr kic_balance)"

subsection \<open>Account creation and seeding\<close>








subsection \<open>Quantities the properties speak about\<close>

text \<open>The number a balance cell holds.\<close>

definition cell_value :: "sql_num \<Rightarrow> int" where
  "cell_value c = py_value (fetch c)"

text \<open>The ids of the accounts, and the PRIMARY KEY constraint on \<^verbatim>\<open>users.id\<close>.\<close>

definition user_ids :: "db \<Rightarrow> int list" where
  "user_ids db = map u_id (users db)"

definition primary_key :: "db \<Rightarrow> bool" where
  "primary_key db = distinct (user_ids db)"

text \<open>An id is the id of an account.\<close>

definition account_exists :: "int \<Rightarrow> db \<Rightarrow> bool" where
  "account_exists user_id db \<longleftrightarrow> fits_int64 user_id \<and> user_id \<in> set (user_ids db)"

text \<open>The sum of all account balances.\<close>

definition total_kic :: "db \<Rightarrow> int" where
  "total_kic db = sum_list (map (\<lambda>r. cell_value (u_kic_balance r)) (users db))"

text \<open>The sum of the log entries of one account.\<close>

definition log_sum :: "int \<Rightarrow> db \<Rightarrow> int" where
  "log_sum user_id db =
     sum_list (map t_amount (filter (\<lambda>t. t_user_id t = user_id) (kic_transactions db)))"

text \<open>Per account row, the balance minus the sum of the account's log entries.\<close>

definition balance_log_gap :: "db \<Rightarrow> int list" where
  "balance_log_gap db =
     map (\<lambda>r. cell_value (u_kic_balance r) - log_sum (u_id r) db) (users db)"

text \<open>No account is overdrawn, neither in the tables the connection sees nor in those of
  the last commit.\<close>

definition no_overdraft :: "db \<Rightarrow> bool" where
  "no_overdraft db \<longleftrightarrow>
     list_all (\<lambda>r. 0 \<le> cell_value (u_kic_balance r)) (users db)
     \<and> list_all (\<lambda>r. 0 \<le> cell_value (u_kic_balance r)) (users (tables_of (committed db)))"

text \<open>Every balance is an INTEGER of magnitude at most \<open>b\<close>.\<close>

definition integer_balances :: "int \<Rightarrow> db \<Rightarrow> bool" where
  "integer_balances b db =
     list_all (\<lambda>r. case u_kic_balance r of INTEGER a \<Rightarrow> \<bar>a\<bar> \<le> b | REAL _ \<Rightarrow> False) (users db)"

text \<open>A sequence of \<^verbatim>\<open>transfer_kic\<close> calls, each on the database the previous one left.\<close>

type_synonym transfer_call = "int \<times> int \<times> int \<times> string"

fun transfer_calls :: "transfer_call list \<Rightarrow> db \<Rightarrow> db" where
  "transfer_calls [] db = db"
| "transfer_calls ((from_user_id, to_user_id, amount, description) # calls) db =
     transfer_calls calls (snd (transfer_kic from_user_id to_user_id amount description db))"

text \<open>The receiver and the amount of a call, and the amounts of a sequence added up in
  magnitude.\<close>

definition call_to :: "transfer_call \<Rightarrow> int" where
  "call_to c = fst (snd c)"

definition call_amount :: "transfer_call \<Rightarrow> int" where
  "call_amount c = fst (snd (snd c))"

definition moved :: "transfer_call list \<Rightarrow> int" where
  "moved calls = sum_list (map (\<lambda>c. \<bar>call_amount c\<bar>) calls)"

text \<open>The accounts of the worked scenario: A is user 1 with 1000, B is user 2 with 500,
  nothing pending.\<close>

definition tables_AB :: tables where
  "tables_AB =
     \<lparr>companies = [],
      users = [\<lparr>u_id = 1, u_email = ''a@example.com'', u_kic_balance = INTEGER 1000\<rparr>,
               \<lparr>u_id = 2, u_email = ''b@example.com'', u_kic_balance = INTEGER 500\<rparr>],
      users_seq = 2, kic_transactions = [], kic_transactions_seq = 0\<rparr>"

definition db_AB :: db where
  "db_AB =
     \<lparr>companies = [],
      users = [\<lparr>u_id = 1, u_email = ''a@example.com'', u_kic_balance = INTEGER 1000\<rparr>,
               \<lparr>u_id = 2, u_email = ''b@example.com'', u_kic_balance = INTEGER 500\<rparr>],
      users_seq = 2, kic_transactions = [], kic_transactions_seq = 0,
      committed = Snapshot tables_AB\<rparr>"

section \<open>Facts about 64-bit integers and doubles\<close>

lemma int64_bounds: "int64_min < 0" "0 < int64_max" "int64_min = - int64_max - 1"
  by (simp_all add: int64_min_def int64_max_def)

lemma fits_int64_signed [simp]: "fits_int64 (signed_take_bit 63 a)"
proof -
  have "- (2 ^ 63) \<le> signed_take_bit 63 a" and "signed_take_bit 63 a < 2 ^ 63"
    using signed_take_bit_int_greater_eq_minus_exp [of 63 a]
      signed_take_bit_int_less_exp [of 63 a] by simp_all
  then show ?thesis by (simp add: fits_int64_def int64_min_def int64_max_def)
qed

lemma signed_fits: "fits_int64 a \<Longrightarrow> signed_take_bit 63 a = a"
  by (simp add: fits_int64_def int64_min_def int64_max_def signed_take_bit_int_eq_self)

lemma round_even_cases:
  "round_even u m = (m div u) * u \<or> round_even u m = (m div u + 1) * u"
  by (simp add: round_even_def Let_def)

lemma round_even_exact: "m mod u = 0 \<Longrightarrow> 0 < u \<Longrightarrow> round_even u m = m"
  using div_mult_mod_eq [of m u] by (simp add: round_even_def Let_def)

lemma round_even_nonneg: "0 < u \<Longrightarrow> 0 \<le> m \<Longrightarrow> 0 \<le> round_even u m"
  using round_even_cases [of u m] pos_imp_zdiv_nonneg_iff [of u m]
  by (auto simp: zero_le_mult_iff)

lemma round_even_le: "0 < u \<Longrightarrow> round_even u m \<le> (m div u + 1) * u"
  using round_even_cases [of u m] by (auto simp: distrib_right)

lemma round_even_dvd: "u dvd round_even u m"
  using round_even_cases [of u m] by auto

lemma to_double_nonneg: "0 \<le> x \<Longrightarrow> 0 \<le> to_double x"
  by (auto simp: to_double_def round_even_nonneg zero_le_mult_iff sgn_if)

lemma to_double_pos_arg: "0 < to_double x \<Longrightarrow> 0 < x"
proof (rule ccontr)
  assume p: "0 < to_double x" and "\<not> 0 < x"
  then have "x \<le> 0" by simp
  then have "to_double x \<le> 0"
    using round_even_nonneg [of "2 ^ nat (bitlen \<bar>x\<bar> - 53)" "\<bar>x\<bar>"]
    by (auto simp: to_double_def sgn_if mult_le_0_iff)
  with p show False by simp
qed

text \<open>The next multiple of a positive number above a number that is not one.\<close>

lemma next_multiple:
  fixes u :: int
  assumes u: "0 < u" and d: "u dvd D" and le: "a \<le> D" and nz: "a mod u \<noteq> 0"
  shows "(a div u + 1) * u \<le> D"
proof -
  from d obtain k where D: "D = u * k" by (auto simp: dvd_def)
  have "a \<noteq> D" using nz d by auto
  with le have "a < u * k" by (simp add: D)
  moreover have "a div u * u \<le> a"
    using div_mult_mod_eq [of a u] pos_mod_sign [OF u, of a] by linarith
  ultimately have "a div u * u < k * u" by (simp add: mult.commute)
  then have "a div u < k" using u by (simp add: mult_less_cancel_right)
  then have "a div u + 1 \<le> k" by simp
  then have "(a div u + 1) * u \<le> k * u" using u by (simp add: mult_right_mono)
  then show ?thesis by (simp add: D mult.commute)
qed

lemma bitlen_ge_54:
  assumes "2 ^ 53 \<le> (a::int)"
  shows "53 < nat (bitlen a)"
proof -
  have "0 < a" using assms by (smt (verit) zero_less_power)
  from bitlen_bounds [OF this] have "a < 2 ^ nat (bitlen a)" by simp
  with assms have lt: "(2::int) ^ 53 < 2 ^ nat (bitlen a)" by linarith
  show ?thesis
  proof (rule ccontr)
    assume "\<not> 53 < nat (bitlen a)"
    then have "nat (bitlen a) \<le> 53" by simp
    then have "(2::int) ^ nat (bitlen a) \<le> 2 ^ 53" by (rule power_increasing) simp
    with lt show False by linarith
  qed
qed

lemma to_double_big:
  assumes "2 ^ 53 \<le> (a::int)"
  shows "to_double a = round_even (2 ^ (nat (bitlen a) - 53)) a"
proof -
  have pos: "0 < a" using assms by (smt (verit) zero_less_power)
  have "nat (bitlen a - 53) = nat (bitlen a) - 53" by simp
  with assms pos show ?thesis by (simp add: to_double_def)
qed

lemma to_double_le_pow:
  assumes "2 ^ 53 \<le> (r::int)"
  shows "to_double r \<le> 2 ^ nat (bitlen r)"
proof -
  let ?n = "nat (bitlen r)"
  let ?u = "(2::int) ^ (?n - 53)"
  have pos: "0 < r" using assms by (smt (verit) zero_less_power)
  have n: "53 < ?n" by (rule bitlen_ge_54 [OF assms])
  have lt: "r < 2 ^ ?n" using bitlen_bounds [OF pos] by simp
  have upos: "0 < ?u" by simp
  have "?n = 53 + (?n - 53)" using n by simp
  then have "(2::int) ^ ?n = 2 ^ (53 + (?n - 53))" by simp
  also have "\<dots> = 2 ^ 53 * ?u" by (rule power_add)
  finally have split: "(2::int) ^ ?n = 2 ^ 53 * ?u" .
  have "r div ?u * ?u \<le> r"
    using div_mult_mod_eq [of r ?u] pos_mod_sign [OF upos, of r] by linarith
  with lt have "r div ?u * ?u < 2 ^ 53 * ?u" unfolding split by linarith
  then have "r div ?u < 2 ^ 53" using upos by (simp only: mult_less_cancel_right)
  then have "r div ?u + 1 \<le> 2 ^ 53" by linarith
  then have "(r div ?u + 1) * ?u \<le> 2 ^ 53 * ?u" using upos by (simp only: mult_le_cancel_right) simp
  moreover have "round_even ?u r \<le> (r div ?u + 1) * ?u" by (rule round_even_le) simp
  ultimately have "round_even ?u r \<le> 2 ^ ?n" unfolding split by linarith
  then show ?thesis by (simp only: to_double_big [OF assms])
qed

lemma to_double_le_double:
  assumes a0: "0 \<le> a" and le: "a \<le> to_double r"
  shows "to_double a \<le> to_double r"
proof (cases "a < 2 ^ 53")
  case True
  with a0 le show ?thesis by (simp add: to_double_def)
next
  case False
  then have a53: "2 ^ 53 \<le> a" by simp
  let ?na = "nat (bitlen a)" and ?nr = "nat (bitlen r)"
  let ?ua = "(2::int) ^ (?na - 53)" and ?ur = "(2::int) ^ (?nr - 53)"
  have apos: "0 < a" using a53 by (smt (verit) zero_less_power)
  have "0 < to_double r" using apos le by simp
  then have rpos: "0 < r" by (rule to_double_pos_arg)
  have r53: "2 ^ 53 \<le> r"
  proof (rule ccontr)
    assume "\<not> 2 ^ 53 \<le> r"
    with rpos have "to_double r = r" by (simp add: to_double_def)
    with le a53 \<open>\<not> 2 ^ 53 \<le> r\<close> show False by simp
  qed
  have na: "53 < ?na" by (rule bitlen_ge_54 [OF a53])
  have nr: "53 < ?nr" by (rule bitlen_ge_54 [OF r53])
  have ta: "to_double a = round_even ?ua a" by (rule to_double_big [OF a53])
  have tr: "to_double r = round_even ?ur r" by (rule to_double_big [OF r53])
  have dvd: "?ua dvd to_double r"
  proof (cases "?na \<le> ?nr")
    case True
    then have "?ua dvd ?ur" by (simp add: le_imp_power_dvd)
    moreover have "?ur dvd to_double r" unfolding tr by (rule round_even_dvd)
    ultimately show ?thesis by (rule dvd_trans)
  next
    case False
    then have "?nr \<le> ?na - 1" by simp
    then have "(2::int) ^ ?nr \<le> 2 ^ (?na - 1)" by (simp add: power_increasing)
    moreover have "2 ^ (?na - 1) \<le> a"
    proof -
      have "nat (bitlen a - 1) = ?na - 1" using na by simp
      with bitlen_bounds [OF apos] show ?thesis by simp
    qed
    moreover have "to_double r \<le> 2 ^ ?nr" by (rule to_double_le_pow [OF r53])
    ultimately have "to_double r = 2 ^ (?na - 1)" using le by linarith
    moreover have "?ua dvd (2::int) ^ (?na - 1)" by (simp add: le_imp_power_dvd)
    ultimately show ?thesis by simp
  qed
  show ?thesis
  proof (cases "a mod ?ua = 0")
    case True
    then show ?thesis using le by (simp add: ta round_even_exact)
  next
    case False
    have "round_even ?ua a \<le> (a div ?ua + 1) * ?ua" by (rule round_even_le) simp
    also have "\<dots> \<le> to_double r" by (rule next_multiple [OF _ dvd le False]) simp
    finally show ?thesis by (simp add: ta)
  qed
qed

section \<open>Facts about the statements\<close>

subsection \<open>Balance cells\<close>

lemma fetch_fits: "fetch c = Py_int x \<Longrightarrow> fits_int64 x"
  by (auto simp: fetch_def split: sql_num.splits)

lemma fetch_INTEGER: "fits_int64 a \<Longrightarrow> fetch (INTEGER a) = Py_int a"
  by (simp add: fetch_def signed_fits)

lemma cell_value_INTEGER: "fits_int64 a \<Longrightarrow> cell_value (INTEGER a) = a"
  by (simp add: cell_value_def fetch_INTEGER py_value_def)

lemma cell_value_integer_affinity_nonneg: "0 \<le> d \<Longrightarrow> 0 \<le> cell_value (integer_affinity d)"
  by (auto simp: integer_affinity_def cell_value_def fetch_def py_value_def to_double_nonneg
      signed_fits fits_int64_def)

lemma sql_sub_exact:
  "fetch c = Py_int x \<Longrightarrow> fits_int64 (x - b) \<Longrightarrow> sql_sub c b = INTEGER (x - b)"
  by (simp add: sql_sub_def)

lemma sql_add_exact:
  "fetch c = Py_int x \<Longrightarrow> fits_int64 (x + b) \<Longrightarrow> sql_add c b = INTEGER (x + b)"
  by (simp add: sql_add_def)

lemma sql_add_nonneg:
  assumes "0 \<le> cell_value c" and "0 \<le> b"
  shows "0 \<le> cell_value (sql_add c b)"
proof (cases "fetch c")
  case (Py_int x)
  with assms(1) have x: "0 \<le> x" by (simp add: cell_value_def py_value_def)
  show ?thesis
  proof (cases "fits_int64 (x + b)")
    case True
    with Py_int x assms(2) show ?thesis by (simp add: sql_add_def cell_value_INTEGER)
  next
    case False
    have "0 \<le> to_double (to_double x + to_double b)"
      using x assms(2) by (intro to_double_nonneg add_nonneg_nonneg)
    with Py_int False show ?thesis
      by (simp add: sql_add_def cell_value_integer_affinity_nonneg)
  qed
next
  case (Py_float r)
  with assms(1) have "0 \<le> r" by (simp add: cell_value_def py_value_def)
  then have "0 \<le> to_double (r + to_double b)"
    using assms(2) by (intro to_double_nonneg add_nonneg_nonneg)
  with Py_float show ?thesis
    by (simp add: sql_add_def cell_value_integer_affinity_nonneg)
qed

lemma sql_sub_nonneg:
  assumes "0 \<le> b" and "b \<le> cell_value c"
  shows "0 \<le> cell_value (sql_sub c b)"
proof (cases "fetch c")
  case (Py_int x)
  with assms(2) have x: "b \<le> x" by (simp add: cell_value_def py_value_def)
  have "fits_int64 x" using Py_int by (rule fetch_fits)
  with x assms(1) have f: "fits_int64 (x - b)" by (simp add: fits_int64_def int64_min_def)
  with Py_int x show ?thesis by (simp add: sql_sub_def cell_value_INTEGER)
next
  case (Py_float r)
  then obtain r0 where r: "r = to_double r0" by (auto simp: fetch_def split: sql_num.splits)
  from Py_float assms(2) have "b \<le> to_double r0" by (simp add: cell_value_def py_value_def r)
  with assms(1) have "to_double b \<le> r" unfolding r by (rule to_double_le_double)
  then have "0 \<le> to_double (r - to_double b)" by (intro to_double_nonneg) simp
  with Py_float show ?thesis
    by (simp add: sql_sub_def cell_value_integer_affinity_nonneg)
qed

subsection \<open>Rows and the SELECT\<close>

lemma u_id_update_row [simp]: "u_id (update_row op a u r) = u_id r"
  by (simp add: update_row_def)

lemma user_ids_map_update_row [simp]: "map u_id (map (update_row op a v) rows) = map u_id rows"
  by (induction rows) simp_all

lemma find_SomeD: "find P xs = Some x \<Longrightarrow> x \<in> set xs \<and> P x"
  by (induction xs) (auto split: if_splits)




lemma select_Some_fits: "select_kic_balance u db = Inr x \<Longrightarrow> fits_int64 u"
  by (auto simp: select_kic_balance_def split: if_splits)

lemma select_Some_row:
  "select_kic_balance u db = Inr (Some p) \<longleftrightarrow>
     fits_int64 u \<and> (\<exists>r. find (\<lambda>r. u_id r = u) (users db) = Some r \<and> fetch (u_kic_balance r) = p)"
  by (auto simp: select_kic_balance_def split: option.splits)

lemma select_Some_exists: "select_kic_balance u db = Inr (Some p) \<Longrightarrow> u \<in> set (user_ids db)"
  by (auto simp: select_Some_row user_ids_def dest: find_SomeD)

lemma find_unique:
  assumes "distinct (map u_id rows)" and "find (\<lambda>r. u_id r = u) rows = Some r0"
    and "r \<in> set rows" and "u_id r = u"
  shows "r = r0"
proof -
  from assms(2) have "r0 \<in> set rows" and "u_id r0 = u"
    by (auto dest: find_SomeD)
  with assms(1,3,4) show ?thesis by (auto simp: distinct_map inj_on_def)
qed

subsection \<open>The call that returns True\<close>

lemma update_kic_balance_Inr:
  "fits_int64 a \<Longrightarrow> fits_int64 u \<Longrightarrow>
   update_kic_balance op a u db = Inr (db\<lparr>users := map (update_row op a u) (users db)\<rparr>)"
  by (simp add: update_kic_balance_def)

lemma insert_kic_transaction_Inr:
  "fits_int64 u \<Longrightarrow> fits_int64 a \<Longrightarrow> kic_transactions_seq db < int64_max \<Longrightarrow>
   insert_kic_transaction u ty a d None db =
     Inr (db\<lparr>kic_transactions := kic_transactions db @
                [\<lparr>t_id = kic_transactions_seq db + 1, t_user_id = u,
                  t_transaction_type = ty, t_amount = a,
                  t_description = d, t_related_id = None\<rparr>],
              kic_transactions_seq := kic_transactions_seq db + 1\<rparr>)"
  by (simp add: insert_kic_transaction_def)

lemma transfer_kic_True:
  assumes "select_kic_balance f db = Inr (Some p)" and "a \<le> py_value p"
    and "fits_int64 a" and "fits_int64 (- a)" and "fits_int64 t"
    and "kic_transactions_seq db + 2 \<le> int64_max"
  shows "transfer_kic f t a d db =
    (Inr True,
     commit (db\<lparr>users := map (update_row sql_add a t) (map (update_row sql_sub a f) (users db)),
                kic_transactions := kic_transactions db @
                  [\<lparr>t_id = kic_transactions_seq db + 1, t_user_id = f,
                    t_transaction_type = ''sent'', t_amount = - a,
                    t_description = d, t_related_id = None\<rparr>,
                   \<lparr>t_id = kic_transactions_seq db + 2, t_user_id = t,
                    t_transaction_type = ''received'', t_amount = a,
                    t_description = d, t_related_id = None\<rparr>],
                kic_transactions_seq := kic_transactions_seq db + 2\<rparr>))"
proof -
  have ff: "fits_int64 f" using assms(1) by (rule select_Some_fits)
  show ?thesis
    using assms ff
    by (simp add: transfer_kic_def update_kic_balance_Inr insert_kic_transaction_Inr
        commit_def add.commute)
qed

lemma transfer_kic_True_iff:
  "fst (transfer_kic f t a d db) = Inr True \<longleftrightarrow>
     (\<exists>p. select_kic_balance f db = Inr (Some p) \<and> a \<le> py_value p)
     \<and> fits_int64 a \<and> fits_int64 (- a) \<and> fits_int64 t
     \<and> kic_transactions_seq db + 2 \<le> int64_max"
  by (auto simp: transfer_kic_def update_kic_balance_def insert_kic_transaction_def
      split: sum.splits option.splits if_splits prod.splits dest: select_Some_fits)

lemma commit_fields [simp]:
  "users (commit db) = users db" "kic_transactions (commit db) = kic_transactions db"
  "kic_transactions_seq (commit db) = kic_transactions_seq db"
  "users (tables_of (committed (commit db))) = users db"
  by (simp_all add: commit_def)


lemma select_commit [simp]: "select_kic_balance u (commit db) = select_kic_balance u db"
  by (simp add: select_kic_balance_def)

subsection \<open>Signs\<close>

lemma credit_nonneg:
  assumes "list_all (\<lambda>r. 0 \<le> cell_value (u_kic_balance r)) rows" and "0 \<le> a"
  shows "list_all (\<lambda>r. 0 \<le> cell_value (u_kic_balance r)) (map (update_row sql_add a t) rows)"
  using assms by (auto simp: list_all_iff update_row_def sql_add_nonneg)

lemma debit_nonneg:
  assumes pk: "primary_key db"
    and nn: "list_all (\<lambda>r. 0 \<le> cell_value (u_kic_balance r)) (users db)"
    and s: "select_kic_balance f db = Inr (Some p)" and a: "0 \<le> a" "a \<le> py_value p"
  shows "list_all (\<lambda>r. 0 \<le> cell_value (u_kic_balance r)) (map (update_row sql_sub a f) (users db))"
proof -
  from s obtain rf where rf: "find (\<lambda>r. u_id r = f) (users db) = Some rf"
    "fetch (u_kic_balance rf) = p" by (auto simp: select_Some_row)
  have "0 \<le> cell_value (u_kic_balance (update_row sql_sub a f r))" if r: "r \<in> set (users db)" for r
  proof (cases "u_id r = f")
    case True
    with pk rf(1) r have "r = rf" by (auto simp: primary_key_def user_ids_def intro: find_unique)
    with rf(2) a(2) have "a \<le> cell_value (u_kic_balance r)" by (simp add: cell_value_def)
    with a(1) True show ?thesis by (simp add: update_row_def sql_sub_nonneg)
  next
    case False
    with nn r show ?thesis by (simp add: update_row_def list_all_iff)
  qed
  then show ?thesis by (simp add: list_all_iff)
qed

subsection \<open>A call inside the 64 bits\<close>

text \<open>When every balance is an INTEGER of magnitude at most \<open>b\<close> and \<open>b\<close> leaves
  room for the amount, both UPDATEs are exact integer arithmetic.\<close>

lemma sum_no_row:
  fixes c :: int
  assumes "u \<notin> set (map u_id rows)"
  shows "sum_list (map (\<lambda>r. if u_id r = u then c else 0) rows) = 0"
  using assms by (induction rows) auto

lemma sum_one_row:
  fixes c :: int
  assumes "distinct (map u_id rows)" and "u \<in> set (map u_id rows)"
  shows "sum_list (map (\<lambda>r. if u_id r = u then c else 0) rows) = c"
  using assms
proof (induction rows)
  case Nil
  then show ?case by simp
next
  case (Cons r rows)
  show ?case
  proof (cases "u_id r = u")
    case True
    with Cons.prems(1) have "u \<notin> set (map u_id rows)" by auto
    then have "sum_list (map (\<lambda>r. if u_id r = u then c else 0) rows) = 0" by (rule sum_no_row)
    with True show ?thesis by simp
  next
    case False
    with Cons show ?thesis by simp
  qed
qed

lemma integer_balances_row:
  "integer_balances b db \<Longrightarrow> r \<in> set (users db) \<Longrightarrow>
   \<exists>x. u_kic_balance r = INTEGER x \<and> \<bar>x\<bar> \<le> b"
  by (cases "u_kic_balance r") (auto simp: integer_balances_def list_all_iff)

lemma fits_abs: "\<bar>x\<bar> \<le> int64_max \<Longrightarrow> fits_int64 x"
  by (simp add: fits_int64_def int64_bounds(3)) linarith

lemma exact_row:
  assumes c: "u_kic_balance r = INTEGER x" and x: "\<bar>x\<bar> \<le> b" and b: "b + \<bar>a\<bar> \<le> int64_max"
  shows "u_kic_balance (update_row sql_add a t (update_row sql_sub a f r)) =
     INTEGER (x + (if u_id r = f then - a else 0) + (if u_id r = t then a else 0))"
proof -
  have fx: "fits_int64 x" using x b by (intro fits_abs) linarith
  have fs: "fits_int64 (x - a)" using x b by (intro fits_abs) linarith
  have fa: "fits_int64 (x + a)" using x b by (intro fits_abs) linarith
  have sub: "sql_sub (INTEGER x) a = INTEGER (x - a)"
    using fx fs by (simp add: sql_sub_exact fetch_INTEGER)
  have add: "sql_add (INTEGER x) a = INTEGER (x + a)"
    using fx fa by (simp add: sql_add_exact fetch_INTEGER)
  have undo: "sql_add (INTEGER (x - a)) a = INTEGER x"
    using fx fs sql_add_exact [of "INTEGER (x - a)" "x - a" a] by (simp add: fetch_INTEGER)
  show ?thesis using c sub add undo by (simp add: update_row_def)
qed

lemma transfer_kic_unchanged:
  assumes "\<not> (\<exists>p. select_kic_balance f db = Inr (Some p) \<and> a \<le> py_value p)"
  shows "snd (transfer_kic f t a d db) = db"
  using assms by (auto simp: transfer_kic_def split: sum.splits option.splits)

lemma transfer_kic_step:
  assumes ib: "integer_balances b db" and bound: "b + \<bar>a\<bar> \<le> int64_max"
    and ft: "fits_int64 t" and seq: "kic_transactions_seq db + 2 \<le> int64_max"
  shows "integer_balances (b + \<bar>a\<bar>) (snd (transfer_kic f t a d db))"
    and "balance_log_gap (snd (transfer_kic f t a d db)) = balance_log_gap db"
    and "user_ids (snd (transfer_kic f t a d db)) = user_ids db"
    and "kic_transactions_seq (snd (transfer_kic f t a d db)) \<le> kic_transactions_seq db + 2"
    and "primary_key db \<Longrightarrow> t \<in> set (user_ids db) \<Longrightarrow>
         total_kic (snd (transfer_kic f t a d db)) = total_kic db"
proof -
  let ?r = "snd (transfer_kic f t a d db)"
  have mono: "integer_balances (b + \<bar>a\<bar>) db"
    using ib by (auto simp: integer_balances_def list_all_iff split: sql_num.splits)
  have "integer_balances (b + \<bar>a\<bar>) ?r \<and> balance_log_gap ?r = balance_log_gap db
    \<and> user_ids ?r = user_ids db \<and> kic_transactions_seq ?r \<le> kic_transactions_seq db + 2
    \<and> (primary_key db \<longrightarrow> t \<in> set (user_ids db) \<longrightarrow> total_kic ?r = total_kic db)"
  proof (cases "\<exists>p. select_kic_balance f db = Inr (Some p) \<and> a \<le> py_value p")
    case False
    then have "?r = db" by (rule transfer_kic_unchanged)
    with mono show ?thesis by simp
  next
    case True
    then obtain p where s: "select_kic_balance f db = Inr (Some p)" and le: "a \<le> py_value p"
      by blast
    from s have fin: "f \<in> set (user_ids db)" by (rule select_Some_exists)
    then obtain rf where "rf \<in> set (users db)" by (auto simp: user_ids_def)
    from integer_balances_row [OF ib this] have b0: "0 \<le> b" by auto
    have fa: "fits_int64 a" "fits_int64 (- a)"
      using b0 bound by (auto intro!: fits_abs)
    note eq = transfer_kic_True [OF s le fa ft seq, of d]
    have cell: "u_kic_balance (update_row sql_add a t (update_row sql_sub a f r)) =
        INTEGER (x + (if u_id r = f then - a else 0) + (if u_id r = t then a else 0))"
      if "r \<in> set (users db)" "u_kic_balance r = INTEGER x" "\<bar>x\<bar> \<le> b" for r x
      using that(2,3) bound by (rule exact_row)
    have val: "cell_value (u_kic_balance (update_row sql_add a t (update_row sql_sub a f r))) =
        cell_value (u_kic_balance r) + (if u_id r = f then - a else 0) + (if u_id r = t then a else 0)"
      if r: "r \<in> set (users db)" for r
    proof -
      from integer_balances_row [OF ib r] obtain x where x: "u_kic_balance r = INTEGER x" "\<bar>x\<bar> \<le> b"
        by blast
      have "fits_int64 x" using x(2) bound by (intro fits_abs) linarith
      moreover have "fits_int64 (x + (if u_id r = f then - a else 0) + (if u_id r = t then a else 0))"
        using x(2) bound by (cases "u_id r = f"; cases "u_id r = t"; intro fits_abs; simp; linarith)
      ultimately show ?thesis using cell [OF r x] x(1) by (simp add: cell_value_INTEGER)
    qed
    have i1: "integer_balances (b + \<bar>a\<bar>) ?r"
    proof -
      have "case u_kic_balance (update_row sql_add a t (update_row sql_sub a f r)) of
              INTEGER y \<Rightarrow> \<bar>y\<bar> \<le> b + \<bar>a\<bar> | REAL _ \<Rightarrow> False"
        if r: "r \<in> set (users db)" for r
      proof -
        from integer_balances_row [OF ib r] obtain x where x: "u_kic_balance r = INTEGER x" "\<bar>x\<bar> \<le> b"
          by blast
        show ?thesis using cell [OF r x] x(2) by auto
      qed
      then show ?thesis by (simp add: eq integer_balances_def list_all_iff)
    qed
    have i2: "balance_log_gap ?r = balance_log_gap db"
      using val by (simp add: eq balance_log_gap_def log_sum_def commit_def)
    have i3: "user_ids ?r = user_ids db" by (simp add: eq user_ids_def)
    have i4: "kic_transactions_seq ?r \<le> kic_transactions_seq db + 2" by (simp add: eq)
    have i5: "total_kic ?r = total_kic db" if pk: "primary_key db" and tin: "t \<in> set (user_ids db)"
    proof -
      have "total_kic ?r =
          sum_list (map (\<lambda>r. cell_value (u_kic_balance r) + (if u_id r = f then - a else 0)
                               + (if u_id r = t then a else 0)) (users db))"
        using val by (simp add: eq total_kic_def comp_def cong: map_cong)
      also have "\<dots> = total_kic db + sum_list (map (\<lambda>r. if u_id r = f then - a else 0) (users db))
          + sum_list (map (\<lambda>r. if u_id r = t then a else 0) (users db))"
        by (simp add: total_kic_def sum_list_addf)
      also have "\<dots> = total_kic db + (- a) + a"
        using pk fin tin
        by (simp only: sum_one_row [of "users db"] primary_key_def user_ids_def)
      finally show ?thesis by simp
    qed
    from i1 i2 i3 i4 i5 show ?thesis by blast
  qed
  then show "integer_balances (b + \<bar>a\<bar>) ?r" "balance_log_gap ?r = balance_log_gap db"
    "user_ids ?r = user_ids db" "kic_transactions_seq ?r \<le> kic_transactions_seq db + 2"
    "primary_key db \<Longrightarrow> t \<in> set (user_ids db) \<Longrightarrow> total_kic ?r = total_kic db"
    by blast+
qed

lemma primary_key_ids: "user_ids db' = user_ids db \<Longrightarrow> primary_key db' = primary_key db"
  by (simp add: primary_key_def)

lemma transfer_calls_step:
  assumes "integer_balances b db" and "b + moved calls \<le> int64_max"
    and "\<forall>c \<in> set calls. fits_int64 (call_to c)"
    and "kic_transactions_seq db + 2 * int (length calls) \<le> int64_max"
  shows "balance_log_gap (transfer_calls calls db) = balance_log_gap db
    \<and> user_ids (transfer_calls calls db) = user_ids db
    \<and> (primary_key db \<longrightarrow> (\<forall>c \<in> set calls. call_to c \<in> set (user_ids db)) \<longrightarrow>
         total_kic (transfer_calls calls db) = total_kic db)"
  using assms
proof (induction calls arbitrary: b db)
  case Nil
  show ?case by simp
next
  case (Cons c calls)
  obtain f t a d where c: "c = (f, t, a, d)" by (cases c) auto
  let ?db' = "snd (transfer_kic f t a d db)"
  have m: "moved (c # calls) = \<bar>a\<bar> + moved calls"
    by (simp add: moved_def c call_amount_def)
  have m0: "0 \<le> moved calls" unfolding moved_def by (rule sum_list_nonneg) auto
  have bound: "b + \<bar>a\<bar> \<le> int64_max" using Cons.prems(2) m m0 by linarith
  have ft: "fits_int64 t" using Cons.prems(3) by (simp add: c call_to_def)
  have seq: "kic_transactions_seq db + 2 \<le> int64_max" using Cons.prems(4) by simp
  note step = transfer_kic_step [OF Cons.prems(1) bound ft seq, of f d]
  have ih: "balance_log_gap (transfer_calls calls ?db') = balance_log_gap ?db'
    \<and> user_ids (transfer_calls calls ?db') = user_ids ?db'
    \<and> (primary_key ?db' \<longrightarrow> (\<forall>c \<in> set calls. call_to c \<in> set (user_ids ?db')) \<longrightarrow>
         total_kic (transfer_calls calls ?db') = total_kic ?db')"
  proof (rule Cons.IH [OF step(1)])
    show "b + \<bar>a\<bar> + moved calls \<le> int64_max" using Cons.prems(2) m by linarith
    show "\<forall>c \<in> set calls. fits_int64 (call_to c)" using Cons.prems(3) by simp
    show "kic_transactions_seq ?db' + 2 * int (length calls) \<le> int64_max"
      using Cons.prems(4) step(4) by simp
  qed
  have pk: "primary_key ?db' = primary_key db" by (rule primary_key_ids [OF step(3)])
  show ?case
    using ih step(2,3,5) pk by (simp add: c call_to_def)
qed


subsection \<open>The scenario accounts\<close>

lemma db_AB_facts:
  "users db_AB = [\<lparr>u_id = 1, u_email = ''a@example.com'', u_kic_balance = INTEGER 1000\<rparr>,
                  \<lparr>u_id = 2, u_email = ''b@example.com'', u_kic_balance = INTEGER 500\<rparr>]"
  "kic_transactions db_AB = []" "kic_transactions_seq db_AB = 0"
  "user_ids db_AB = [1, 2]" "primary_key db_AB"
  by (simp_all add: db_AB_def user_ids_def primary_key_def)

lemma fits_small [simp]:
  "fits_int64 0" "fits_int64 1" "fits_int64 2" "fits_int64 3" "fits_int64 99"
  "fits_int64 300" "fits_int64 (- 300)" "fits_int64 500" "fits_int64 700" "fits_int64 800"
  "fits_int64 1000" "fits_int64 1300" "fits_int64 (- 5000)" "fits_int64 5000"
  by (simp_all add: fits_int64_def int64_min_def int64_max_def)

lemma select_db_AB:
  "select_kic_balance 1 db_AB = Inr (Some (Py_int 1000))"
  "select_kic_balance 2 db_AB = Inr (Some (Py_int 500))"
  "select_kic_balance 99 db_AB = Inr None"
  by (simp_all add: select_kic_balance_def db_AB_facts fetch_INTEGER)

lemma transfer_AB_300:
  "transfer_kic 1 2 300 ''x'' db_AB =
    (Inr True,
     commit (db_AB\<lparr>users := [\<lparr>u_id = 1, u_email = ''a@example.com'', u_kic_balance = INTEGER 700\<rparr>,
                             \<lparr>u_id = 2, u_email = ''b@example.com'', u_kic_balance = INTEGER 800\<rparr>],
                kic_transactions :=
                  [\<lparr>t_id = 1, t_user_id = 1, t_transaction_type = ''sent'', t_amount = - 300,
                    t_description = ''x'', t_related_id = None\<rparr>,
                   \<lparr>t_id = 2, t_user_id = 2, t_transaction_type = ''received'', t_amount = 300,
                    t_description = ''x'', t_related_id = None\<rparr>],
                kic_transactions_seq := 2\<rparr>))"
proof -
  have "transfer_kic 1 2 300 ''x'' db_AB = (Inr True,
     commit (db_AB\<lparr>users := map (update_row sql_add 300 2) (map (update_row sql_sub 300 1) (users db_AB)),
                kic_transactions := kic_transactions db_AB @
                  [\<lparr>t_id = kic_transactions_seq db_AB + 1, t_user_id = 1,
                    t_transaction_type = ''sent'', t_amount = - 300,
                    t_description = ''x'', t_related_id = None\<rparr>,
                   \<lparr>t_id = kic_transactions_seq db_AB + 2, t_user_id = 2,
                    t_transaction_type = ''received'', t_amount = 300,
                    t_description = ''x'', t_related_id = None\<rparr>],
                kic_transactions_seq := kic_transactions_seq db_AB + 2\<rparr>))"
    by (rule transfer_kic_True [OF select_db_AB(1)])
      (simp_all add: py_value_def db_AB_facts int64_max_def)
  then show ?thesis
    by (simp add: db_AB_facts update_row_def sql_sub_exact sql_add_exact fetch_INTEGER)
qed

lemma no_overdraft_db_AB: "no_overdraft db_AB"
  by (simp add: no_overdraft_def db_AB_def tables_AB_def cell_value_INTEGER)

lemma db_AB_integer: "integer_balances 1000 db_AB"
  by (simp add: integer_balances_def db_AB_def)

section \<open>Properties\<close>

subsection \<open>Insufficient balance\<close>

theorem transfer_kic_insufficient:
  assumes "select_kic_balance from_user_id db = Inr (Some balance)"
    and "py_value balance < amount"
  shows "transfer_kic from_user_id to_user_id amount description db = (Inr False, db)"
  using assms by (simp add: transfer_kic_def)

text \<open>
  C2. When the SELECT gives the sender's balance and that balance is strictly less than
  the amount, the call fails (it returns \<^verbatim>\<open>False\<close>, which the caller reports as
  insufficient balance) and the database is exactly the one before the call: no balance
  changes, no log entry is appended.
\<close>

theorem transfer_kic_insufficient_witness:
  "select_kic_balance 1 db_AB = Inr (Some (Py_int 1000)) \<and> py_value (Py_int 1000) < 1300
   \<and> transfer_kic 1 2 1300 ''x'' db_AB = (Inr False, db_AB)"
proof -
  have s: "select_kic_balance 1 db_AB = Inr (Some (Py_int 1000))" by (rule select_db_AB)
  have l: "py_value (Py_int 1000) < 1300" by (simp add: py_value_def)
  from transfer_kic_insufficient [OF s l] s l show ?thesis by simp
qed

subsection \<open>A successful transfer\<close>




subsection \<open>What is rejected\<close>




subsection \<open>The pair of log entries\<close>

text \<open>
  The INSERT statements of \<^verbatim>\<open>transfer_kic\<close> name no \<^verbatim>\<open>related_id\<close>: after the transfer
  of 300 from A to B the two entries have ids 1 and 2 and both have \<^verbatim>\<open>related_id\<close> NULL,
  so neither references the other.
\<close>

theorem transfer_kic_unlinked_counterexample:
  "fst (transfer_kic 1 2 300 ''x'' db_AB) = Inr True
   \<and> map t_id (kic_transactions (snd (transfer_kic 1 2 300 ''x'' db_AB))) = [1, 2]
   \<and> map t_related_id (kic_transactions (snd (transfer_kic 1 2 300 ''x'' db_AB))) = [None, None]"
  by (simp add: transfer_AB_300)

text \<open>
  C4 (as the code has it). Every successful transfer appends exactly two entries, next to
  each other and with consecutive ids: a \<^verbatim>\<open>sent\<close> entry of the sender with the negated
  amount, then a \<^verbatim>\<open>received\<close> entry of the receiver with the amount, so the amounts
  are additive inverses. Both entries have \<^verbatim>\<open>related_id\<close> NULL; the pair is linked by
  position only.
\<close>

theorem transfer_kic_pair:
  assumes "fst (transfer_kic from_user_id to_user_id amount description db) = Inr True"
  shows "kic_transactions (snd (transfer_kic from_user_id to_user_id amount description db))
       = kic_transactions db @
         [\<lparr>t_id = kic_transactions_seq db + 1, t_user_id = from_user_id,
           t_transaction_type = ''sent'', t_amount = - amount,
           t_description = description, t_related_id = None\<rparr>,
          \<lparr>t_id = kic_transactions_seq db + 2, t_user_id = to_user_id,
           t_transaction_type = ''received'', t_amount = amount,
           t_description = description, t_related_id = None\<rparr>]"
proof -
  from assms obtain p where "select_kic_balance from_user_id db = Inr (Some p)"
    "amount \<le> py_value p" "fits_int64 amount" "fits_int64 (- amount)" "fits_int64 to_user_id"
    "kic_transactions_seq db + 2 \<le> int64_max"
    unfolding transfer_kic_True_iff by blast
  then show ?thesis by (simp add: transfer_kic_True)
qed

theorem transfer_kic_pair_witness:
  "fst (transfer_kic 1 2 300 ''x'' db_AB) = Inr True
   \<and> kic_transactions (snd (transfer_kic 1 2 300 ''x'' db_AB)) =
       [\<lparr>t_id = 1, t_user_id = 1, t_transaction_type = ''sent'', t_amount = - 300,
         t_description = ''x'', t_related_id = None\<rparr>,
        \<lparr>t_id = 2, t_user_id = 2, t_transaction_type = ''received'', t_amount = 300,
         t_description = ''x'', t_related_id = None\<rparr>]"
proof -
  have ok: "fst (transfer_kic 1 2 300 ''x'' db_AB) = Inr True"
    by (simp add: transfer_AB_300)
  from transfer_kic_pair [OF ok] ok show ?thesis by (simp add: db_AB_facts)
qed

subsection \<open>Reading a balance\<close>

text \<open>For an account that exists, \<^verbatim>\<open>get_kic_balance\<close> returns its balance.\<close>

lemma get_kic_balance_exists:
  "select_kic_balance user_id db = Inr (Some b) \<Longrightarrow> get_kic_balance user_id db = Inr b"
  by (simp add: get_kic_balance_def)

text \<open>
  C8. At an id with no account, \<^verbatim>\<open>get_kic_balance\<close> does not fail with a dedicated
  not-found error: \<^verbatim>\<open>fetchone()\<close> gives \<^verbatim>\<open>None\<close> and subscripting it raises TypeError.
  In the scenario, user 1 reads as the integer 1000 and user 99 raises.
\<close>

theorem get_kic_balance_missing:
  "get_kic_balance 1 db_AB = Inr (Py_int 1000) \<and> get_kic_balance 99 db_AB = Inl TypeError"
  by (simp add: get_kic_balance_def select_db_AB)

subsection \<open>Balances and the log\<close>




subsection \<open>The sum of all balances\<close>

text \<open>
  A transfer to an id with no account debits the sender and credits nobody: from
  A = 1000 and B = 500 the single call \<^verbatim>\<open>transfer_kic(1, 99, 300, "x")\<close> returns
  \<^verbatim>\<open>True\<close> and the total falls from 1500 to 1200.
\<close>

theorem transfer_calls_conservation_counterexample:
  "total_kic db_AB = 1500
   \<and> fst (transfer_kic 1 99 300 ''x'' db_AB) = Inr True
   \<and> total_kic (transfer_calls [(1, 99, 300, ''x'')] db_AB) = 1200"
  by code_simp

text \<open>
  C6 (as the code has it). With unique account ids, any sequence of \<^verbatim>\<open>transfer_kic\<close>
  calls whose receivers all exist and which stays inside 64-bit integer arithmetic (as
  for C5: the balances INTEGERs of magnitude at most \<open>b\<close>, room for the amounts, two log
  ids for each call) leaves the sum of all balances unchanged, whatever the senders are
  and whatever the signs of the amounts.
\<close>

theorem transfer_calls_conservation:
  assumes "primary_key db"
    and "\<forall>c \<in> set calls. account_exists (call_to c) db"
    and "integer_balances b db" and "b + moved calls \<le> int64_max"
    and "kic_transactions_seq db + 2 * int (length calls) \<le> int64_max"
  shows "total_kic (transfer_calls calls db) = total_kic db"
proof -
  have f: "\<forall>c \<in> set calls. fits_int64 (call_to c)"
    and e: "\<forall>c \<in> set calls. call_to c \<in> set (user_ids db)"
    using assms(2) by (simp_all add: account_exists_def)
  from transfer_calls_step [OF assms(3,4) f assms(5)] assms(1) e show ?thesis by blast
qed

theorem transfer_calls_conservation_witness:
  "primary_key db_AB
   \<and> account_exists (call_to (1, 2, 300, ''x'')) db_AB
   \<and> account_exists (call_to (2, 1, - 50, ''y'')) db_AB
   \<and> account_exists (call_to (2, 1, 5000, ''z'')) db_AB
   \<and> integer_balances 1000 db_AB
   \<and> 1000 + moved [(1, 2, 300, ''x''), (2, 1, - 50, ''y''), (2, 1, 5000, ''z'')] \<le> int64_max
   \<and> kic_transactions_seq db_AB
       + 2 * int (length [(1, 2, 300, ''x''), (2, 1, - 50, ''y''), (2, 1, 5000, ''z'')])
       \<le> int64_max
   \<and> total_kic (transfer_calls [(1, 2, 300, ''x''), (2, 1, - 50, ''y''), (2, 1, 5000, ''z'')] db_AB)
       = 1500"
proof -
  let ?calls = "[(1, 2, 300, ''x''), (2, 1, - 50, ''y''), (2, 1, 5000, ''z'')] :: transfer_call list"
  have h2: "\<forall>c \<in> set ?calls. account_exists (call_to c) db_AB"
    by (simp add: call_to_def account_exists_def db_AB_facts)
  have h4: "1000 + moved ?calls \<le> int64_max"
    by (simp add: moved_def call_amount_def int64_max_def)
  have h5: "kic_transactions_seq db_AB + 2 * int (length ?calls) \<le> int64_max"
    by (simp add: db_AB_facts int64_max_def)
  have t: "total_kic db_AB = 1500"
    by (simp add: total_kic_def db_AB_facts cell_value_INTEGER)
  from transfer_calls_conservation [OF db_AB_facts(5) h2 db_AB_integer h4 h5]
    db_AB_facts(5) h2 db_AB_integer h4 h5 t
  show ?thesis by simp
qed

subsection \<open>Overdraft\<close>

text \<open>
  A negative amount passes the test \<^verbatim>\<open>balance >= amount\<close> and moves money from the
  receiver to the sender: from A = 1000 and B = 500, a transfer of \<open>- 5000\<close> from A to B
  returns \<^verbatim>\<open>True\<close> and leaves B at \<open>- 4500\<close>.
\<close>

theorem transfer_kic_overdraft_counterexample:
  "no_overdraft db_AB
   \<and> fst (transfer_kic 1 2 (- 5000) ''x'' db_AB) = Inr True
   \<and> select_kic_balance 2 (snd (transfer_kic 1 2 (- 5000) ''x'' db_AB)) = Inr (Some (Py_int (- 4500)))
   \<and> \<not> no_overdraft (snd (transfer_kic 1 2 (- 5000) ''x'' db_AB))"
  by code_simp

text \<open>
  C7 (as the code has it). With unique account ids and no account overdrawn before the
  call, a \<^verbatim>\<open>transfer_kic\<close> call with an amount of zero or more leaves no account
  overdrawn, whatever the two ids are and however the call ends: a debit is at most the
  balance read, a credit that leaves the 64 bits becomes a positive REAL, an exception
  leaves the statements that ran, and a rollback returns to the last commit.
\<close>

theorem transfer_kic_no_overdraft:
  assumes "primary_key db" and "no_overdraft db" and "0 \<le> amount"
  shows "no_overdraft (snd (transfer_kic from_user_id to_user_id amount description db))"
proof (cases "\<exists>p. select_kic_balance from_user_id db = Inr (Some p) \<and> amount \<le> py_value p")
  case True
  then obtain p where s: "select_kic_balance from_user_id db = Inr (Some p)"
    and le: "amount \<le> py_value p" by blast
  have nn: "list_all (\<lambda>r. 0 \<le> cell_value (u_kic_balance r)) (users db)"
    and nc: "list_all (\<lambda>r. 0 \<le> cell_value (u_kic_balance r)) (users (tables_of (committed db)))"
    using assms(2) by (simp_all add: no_overdraft_def)
  have n1: "list_all (\<lambda>r. 0 \<le> cell_value (u_kic_balance r))
      (map (update_row sql_sub amount from_user_id) (users db))"
    by (rule debit_nonneg [OF assms(1) nn s assms(3) le])
  have n2: "list_all (\<lambda>r. 0 \<le> cell_value (u_kic_balance r))
      (map (update_row sql_add amount to_user_id)
        (map (update_row sql_sub amount from_user_id) (users db)))"
    by (rule credit_nonneg [OF n1 assms(3)])
  show ?thesis
    using s le nn nc n1 n2
    by (simp add: transfer_kic_def update_kic_balance_def insert_kic_transaction_def
        no_overdraft_def rollback_def commit_def)
next
  case False
  then have "snd (transfer_kic from_user_id to_user_id amount description db) = db"
    by (auto simp: transfer_kic_def split: sum.splits option.splits)
  with assms(2) show ?thesis by simp
qed

theorem transfer_kic_no_overdraft_witness:
  "primary_key db_AB \<and> no_overdraft db_AB \<and> (0::int) \<le> 1000
   \<and> no_overdraft (snd (transfer_kic 1 2 1000 ''x'' db_AB))"
proof -
  have h: "(0::int) \<le> 1000" by simp
  from transfer_kic_no_overdraft [OF db_AB_facts(5) no_overdraft_db_AB h, of 1 2 "''x''"]
    db_AB_facts(5) no_overdraft_db_AB h
  show ?thesis by simp
qed

subsection \<open>A receiver that does not exist\<close>




end
